theory Spec2Isabelle
  imports Complex_Main "HOL-Library.Product_Lexorder" "HOL-Library.Sublist"
    "HOL-Library.Char_ord" "HOL-Library.List_Lexorder"
begin

section \<open>Data model\<close>

text \<open>
  The program is one Streamlit script, \<^verbatim>\<open>app.py\<close>. Its data is a pandas DataFrame with
  the columns \<^verbatim>\<open>Date\<close>, \<^verbatim>\<open>Sales\<close>, \<^verbatim>\<open>Category\<close> and \<^verbatim>\<open>Region\<close> and the default integer
  index. A frame is modelled as the list of its rows in storage order, each row paired
  with its index label.

  A value of the \<^verbatim>\<open>Date\<close> column is a midnight timestamp; the script only ever looks at
  its calendar date (\<^verbatim>\<open>.dt.date\<close>, \<^verbatim>\<open>.min().date()\<close>). It is modelled as that calendar
  date, a triple (year, month, day). Python's \<^verbatim>\<open>datetime.date\<close> compares two dates as the
  tuples (year, month, day), which is the lexicographic order of the triple.

  A value of the \<^verbatim>\<open>Sales\<close> column is a float64. It is modelled as the real number it
  denotes; every arithmetic operation that produces a float goes through the rounding
  function of \<open>float_ops\<close> below.
\<close>

type_synonym date = "int \<times> int \<times> int"

record row =
  Date :: date
  Sales :: real
  Category :: string
  Region :: string

type_synonym dataframe = "(nat \<times> row) list"

datatype py_error = IndexError | ValueError

text \<open>\<^verbatim>\<open>df['X']\<close>: the values of one column, in row order.\<close>

definition column :: "(row \<Rightarrow> 'a) \<Rightarrow> dataframe \<Rightarrow> 'a list" where
  "column f df = map (\<lambda>ir. f (snd ir)) df"

section \<open>Boolean masks and the two filters\<close>

text \<open>
  \<^verbatim>\<open>col >= v\<close>, \<^verbatim>\<open>col <= v\<close> and \<^verbatim>\<open>col.isin(vs)\<close> compute one boolean per row, \<^verbatim>\<open>&\<close>
  combines two masks element by element, and \<^verbatim>\<open>df[mask]\<close> keeps the rows whose mask
  entry is true. The masks of the script are computed from columns of the frame they
  index, so mask and frame have the same length.
\<close>

definition series_ge :: "date list \<Rightarrow> date \<Rightarrow> bool list" where
  "series_ge col v = map (\<lambda>d. v \<le> d) col"

definition series_le :: "date list \<Rightarrow> date \<Rightarrow> bool list" where
  "series_le col v = map (\<lambda>d. d \<le> v) col"

definition isin :: "string list \<Rightarrow> string list \<Rightarrow> bool list" where
  "isin col vs = map (\<lambda>c. c \<in> set vs) col"

definition mask_and :: "bool list \<Rightarrow> bool list \<Rightarrow> bool list" where
  "mask_and m1 m2 = map2 (\<and>) m1 m2"

definition boolean_index :: "dataframe \<Rightarrow> bool list \<Rightarrow> dataframe" where
  "boolean_index df bs = map fst (filter snd (zip df bs))"

text \<open>
  Dashboard page:
  \<^verbatim>\<open>filtered_data = data[(data['Date'].dt.date >= start_date) & (data['Date'].dt.date <= end_date)]\<close>
\<close>

definition filtered_data_by_date :: "dataframe \<Rightarrow> date \<Rightarrow> date \<Rightarrow> dataframe" where
  "filtered_data_by_date data start_date end_date =
     boolean_index data
       (mask_and (series_ge (column Date data) start_date)
                 (series_le (column Date data) end_date))"

text \<open>
  Data Explorer page:
  \<^verbatim>\<open>filtered_data = data[(data['Category'].isin(selected_categories)) & (data['Region'].isin(selected_regions))]\<close>
\<close>

definition filtered_data_by_membership ::
  "dataframe \<Rightarrow> string list \<Rightarrow> string list \<Rightarrow> dataframe" where
  "filtered_data_by_membership data selected_categories selected_regions =
     boolean_index data
       (mask_and (isin (column Category data) selected_categories)
                 (isin (column Region data) selected_regions))"

text \<open>
  The defaults of the widgets: \<^verbatim>\<open>data['Date'].min().date()\<close>, \<^verbatim>\<open>data['Date'].max().date()\<close>
  (no value on an empty column) and \<^verbatim>\<open>data['Category'].unique()\<close>, the distinct values in
  order of first appearance.
\<close>

definition series_min :: "date list \<Rightarrow> date option" where
  "series_min col = (case col of [] \<Rightarrow> None | d # ds \<Rightarrow> Some (fold min ds d))"

definition series_max :: "date list \<Rightarrow> date option" where
  "series_max col = (case col of [] \<Rightarrow> None | d # ds \<Rightarrow> Some (fold max ds d))"

fun unique :: "'a list \<Rightarrow> 'a list" where
  "unique [] = []"
| "unique (x # xs) = x # unique (filter (\<lambda>y. y \<noteq> x) xs)"

section \<open>The calendar and the date range\<close>

text \<open>
  \<^verbatim>\<open>pd.date_range(start='2023-01-01', end='2023-12-31', freq='D')\<close> yields one timestamp
  per day from the start to the end, both included: the day numbers from the start's to
  the end's, each read back as a calendar date. The conversions between a date and its
  day number (day 1 is 0001-01-01) are those of Python's \<^verbatim>\<open>datetime\<close> module
  (\<^verbatim>\<open>_is_leap\<close>, \<^verbatim>\<open>_days_before_year\<close>, \<^verbatim>\<open>_days_in_month\<close>, \<^verbatim>\<open>_days_before_month\<close>,
  \<^verbatim>\<open>_ymd2ord\<close>, \<^verbatim>\<open>_ord2ymd\<close>), with their tables, which have a dummy entry at index 0.
\<close>

definition is_leap :: "int \<Rightarrow> bool" where
  "is_leap y = (y mod 4 = 0 \<and> (y mod 100 \<noteq> 0 \<or> y mod 400 = 0))"

definition DAYS_IN_MONTH :: "int list" where
  "DAYS_IN_MONTH = [-1, 31, 28, 31, 30, 31, 30, 31, 31, 30, 31, 30, 31]"

definition DAYS_BEFORE_MONTH :: "int list" where
  "DAYS_BEFORE_MONTH = [-1, 0, 31, 59, 90, 120, 151, 181, 212, 243, 273, 304, 334]"

definition days_before_year :: "int \<Rightarrow> int" where
  "days_before_year yr = (let y = yr - 1 in y * 365 + y div 4 - y div 100 + y div 400)"

definition days_in_month :: "int \<Rightarrow> int \<Rightarrow> int" where
  "days_in_month y m = (if m = 2 \<and> is_leap y then 29 else DAYS_IN_MONTH ! nat m)"

definition days_before_month :: "int \<Rightarrow> int \<Rightarrow> int" where
  "days_before_month y m = DAYS_BEFORE_MONTH ! nat m + (if m > 2 \<and> is_leap y then 1 else 0)"

definition ymd2ord :: "date \<Rightarrow> int" where
  "ymd2ord dt = (case dt of (y, m, d) \<Rightarrow> days_before_year y + days_before_month y m + d)"

definition ord2ymd :: "int \<Rightarrow> date" where
  "ord2ymd n0 =
     (let n = n0 - 1;
          n400 = n div 146097; n = n mod 146097;
          yr = n400 * 400 + 1;
          n100 = n div 36524; n = n mod 36524;
          n4 = n div 1461; n = n mod 1461;
          n1 = n div 365; n = n mod 365;
          yr = yr + n100 * 100 + n4 * 4 + n1
      in if n1 = 4 \<or> n100 = 4 then (yr - 1, 12, 31)
         else
           let leapyear = (n1 = 3 \<and> (n4 \<noteq> 24 \<or> n100 = 3));
               mo = (n + 50) div 32;
               preceding = DAYS_BEFORE_MONTH ! nat mo + (if mo > 2 \<and> leapyear then 1 else 0)
           in if preceding > n
              then let mo' = mo - 1;
                       preceding' = preceding - (DAYS_IN_MONTH ! nat mo' + (if mo' = 2 \<and> leapyear then 1 else 0))
                   in (yr, mo', n - preceding' + 1)
              else (yr, mo, n - preceding + 1))"

definition date_range :: "date \<Rightarrow> date \<Rightarrow> date list" where
  "date_range start end = map ord2ymd [ymd2ord start..ymd2ord end]"

text \<open>
  Two notions of the calendar itself, independent of day numbers, against which the
  generated dates are compared: the day after a date, and the list of all days of a
  year, month by month. \<open>consecutive_days\<close> says that each date of a list is the day
  after the one before it.
\<close>

definition next_day :: "date \<Rightarrow> date" where
  "next_day dt = (case dt of (y, m, d) \<Rightarrow>
     if d < days_in_month y m then (y, m, d + 1)
     else if m < 12 then (y, m + 1, 1) else (y + 1, 1, 1))"

definition calendar_days :: "int \<Rightarrow> date list" where
  "calendar_days y = concat (map (\<lambda>m. map (\<lambda>d. (y, m, d)) [1..days_in_month y m]) [1..12])"

fun consecutive_days :: "date list \<Rightarrow> bool" where
  "consecutive_days (a # b # ds) = (b = next_day a \<and> consecutive_days (b # ds))"
| "consecutive_days _ = True"

section \<open>Float arithmetic\<close>

text \<open>
  NumPy computes the \<^verbatim>\<open>Sales\<close> column in float64. A float64 operation is the exact
  operation followed by rounding to the nearest float64; the sine of the C library is
  a function from floats to floats. Both are parameters of the model: \<open>rnd\<close> is the
  rounding and \<open>fsin\<close> the sine. An integer that meets a float is first converted to a
  float (\<open>of_int64\<close>).
\<close>

record float_ops =
  rnd :: "real \<Rightarrow> real"
  fsin :: "real \<Rightarrow> real"

definition fadd :: "float_ops \<Rightarrow> real \<Rightarrow> real \<Rightarrow> real" where
  "fadd F x y = rnd F (x + y)"

definition fmul :: "float_ops \<Rightarrow> real \<Rightarrow> real \<Rightarrow> real" where
  "fmul F x y = rnd F (x * y)"

definition of_int64 :: "float_ops \<Rightarrow> int \<Rightarrow> real" where
  "of_int64 F k = rnd F (of_int k)"

text \<open>
  What the theorems below need of the arithmetic: rounding is monotone, every integer
  up to \<open>2 ^ 53\<close> in absolute value is a float, and the sine stays within \<open>[-1, 1]\<close>.
  \<open>exact_ops\<close> is arithmetic without rounding; \<open>float64_ops\<close> below is float64
  arithmetic with a correctly rounded sine. Both have the three properties.
\<close>

definition ieee_like :: "float_ops \<Rightarrow> bool" where
  "ieee_like F \<longleftrightarrow>
     (\<forall>x y. x \<le> y \<longrightarrow> rnd F x \<le> rnd F y)
   \<and> (\<forall>k::int. \<bar>k\<bar> \<le> 2 ^ 53 \<longrightarrow> rnd F (of_int k) = of_int k)
   \<and> (\<forall>x. - 1 \<le> fsin F x \<and> fsin F x \<le> 1)"

definition exact_ops :: float_ops where
  "exact_ops = \<lparr>rnd = (\<lambda>x. x), fsin = sin\<rparr>"

text \<open>
  Round-to-nearest, ties to even, with the 53-bit significand of float64: a real \<open>x\<close>
  with \<open>2 ^ e \<le> \<bar>x\<bar> < 2 ^ (e + 1)\<close> is rounded to a multiple of \<open>2 ^ (e - 52)\<close>. The
  exponent range is not bounded (no overflow, no subnormal numbers); the values of this
  program are far from both ends.
\<close>

definition round_half_even :: "real \<Rightarrow> int" where
  "round_half_even x =
     (let f = \<lfloor>x\<rfloor>; d = x - of_int f
      in if d < 1 / 2 then f else if 1 / 2 < d then f + 1 else if even f then f else f + 1)"

definition round_f64 :: "real \<Rightarrow> real" where
  "round_f64 x =
     (if x = 0 then 0
      else let e = \<lfloor>log 2 \<bar>x\<bar>\<rfloor>; u = 2 powr (of_int e - 52)
           in of_int (round_half_even (x / u)) * u)"

definition float64_ops :: float_ops where
  "float64_ops = \<lparr>rnd = round_f64, fsin = (\<lambda>x. round_f64 (sin x))\<rparr>"

section \<open>The random generator and the data generator\<close>

text \<open>
  NumPy's global random generator is a parameter of the model: \<open>'s\<close> is the type of its
  state, \<open>seed\<close> is the state \<^verbatim>\<open>np.random.seed(n)\<close> installs, and \<open>randint1 lo hi\<close> draws
  one integer and returns the next state. \<open>rng_contract\<close> is the documented contract of
  \<^verbatim>\<open>randint\<close>: the integer is at least \<open>lo\<close> and less than \<open>hi\<close>.
  \<^verbatim>\<open>randint(lo, hi, size=n)\<close> draws \<open>n\<close> integers one after another.
\<close>

record 's rng =
  seed :: "nat \<Rightarrow> 's"
  randint1 :: "int \<Rightarrow> int \<Rightarrow> 's \<Rightarrow> int \<times> 's"

definition rng_contract :: "'s rng \<Rightarrow> bool" where
  "rng_contract R \<longleftrightarrow>
     (\<forall>lo hi g. lo < hi \<longrightarrow> lo \<le> fst (randint1 R lo hi g) \<and> fst (randint1 R lo hi g) < hi)"

fun randint :: "'s rng \<Rightarrow> int \<Rightarrow> int \<Rightarrow> nat \<Rightarrow> 's \<Rightarrow> int list \<times> 's" where
  "randint R lo hi 0 g = ([], g)"
| "randint R lo hi (Suc n) g =
     (let (v, g') = randint1 R lo hi g;
          (vs, g'') = randint R lo hi n g'
      in (v # vs, g''))"

text \<open>
  \<^verbatim>\<open>np.random.choice(a, size=n)\<close> draws \<open>n\<close> indices with \<^verbatim>\<open>randint(0, len(a), size=n)\<close> and
  returns \<^verbatim>\<open>a[idx]\<close>. Indexing an array with an index out of range raises
  \<^verbatim>\<open>IndexError\<close>; a negative index no smaller than \<open>- len(a)\<close> counts from the end.
\<close>

definition take_index :: "'a list \<Rightarrow> int \<Rightarrow> py_error + 'a" where
  "take_index a i =
     (let n = int (length a)
      in if - n \<le> i \<and> i < n then Inr (a ! nat (if i < 0 then i + n else i))
         else Inl IndexError)"

fun take_all :: "'a list \<Rightarrow> int list \<Rightarrow> py_error + 'a list" where
  "take_all a [] = Inr []"
| "take_all a (i # js) =
     (case take_index a i of
        Inl e \<Rightarrow> Inl e
      | Inr x \<Rightarrow> (case take_all a js of Inl e \<Rightarrow> Inl e | Inr xs \<Rightarrow> Inr (x # xs)))"

definition choice :: "'s rng \<Rightarrow> 'a list \<Rightarrow> nat \<Rightarrow> 's \<Rightarrow> (py_error + 'a list) \<times> 's" where
  "choice R a n g = (let (idx, g') = randint R 0 (int (length a)) n g in (take_all a idx, g'))"

text \<open>
  \<^verbatim>\<open>np.arange(n)\<close> is the integers \<open>0, ..., n - 1\<close>. \<^verbatim>\<open>pd.DataFrame({...})\<close> of four columns
  raises \<^verbatim>\<open>ValueError\<close> unless they have the same length, and numbers the rows
  \<open>0, ..., n - 1\<close>.
\<close>

definition arange :: "nat \<Rightarrow> int list" where
  "arange n = map int [0..<n]"

definition DataFrame ::
  "date list \<Rightarrow> real list \<Rightarrow> string list \<Rightarrow> string list \<Rightarrow> py_error + dataframe" where
  "DataFrame dates sales categories regions =
     (if length sales = length dates \<and> length categories = length dates
         \<and> length regions = length dates
      then Inr (zip [0..<length dates]
             (map (\<lambda>(d, s, c, r). \<lparr>Date = d, Sales = s, Category = c, Region = r\<rparr>)
                (zip dates (zip sales (zip categories regions)))))
      else Inl ValueError)"

text \<open>
  \<^verbatim>\<open>generate_data\<close>, lines 43 to 56 of \<^verbatim>\<open>app.py\<close>. \<open>g0\<close> is the state of the global
  generator when the function is called; \<^verbatim>\<open>np.random.seed(42)\<close> replaces it. The result
  is the frame or the error raised, and the state of the generator afterwards.
  \<^verbatim>\<open>
  dates = pd.date_range(start='2023-01-01', end='2023-12-31', freq='D')
  np.random.seed(42)
  sales = np.random.randint(100, 1000, size=len(dates)) + np.sin(np.arange(len(dates)) * 0.1) * 100
  categories = np.random.choice(['Electronics', 'Clothing', 'Food', 'Books', 'Home'], size=len(dates))
  regions = np.random.choice(['North', 'South', 'East', 'West', 'Central'], size=len(dates))
  df = pd.DataFrame({'Date': dates, 'Sales': sales, 'Category': categories, 'Region': regions})
  return df
  \<close>
\<close>

definition generate_data :: "float_ops \<Rightarrow> 's rng \<Rightarrow> 's \<Rightarrow> (py_error + dataframe) \<times> 's" where
  "generate_data F R g0 =
     (let dates = date_range (2023, 1, 1) (2023, 12, 31);
          g1 = seed R 42;
          (ints, g2) = randint R 100 1000 (length dates) g1;
          sales = map2 (\<lambda>r x. fadd F (of_int64 F r) x) ints
                    (map (\<lambda>x. fmul F x (of_int64 F 100))
                       (map (fsin F)
                          (map (\<lambda>i. fmul F (of_int64 F i) (rnd F (1 / 10)))
                             (arange (length dates)))));
          (categories, g3) =
             choice R [''Electronics'', ''Clothing'', ''Food'', ''Books'', ''Home'']
               (length dates) g2
      in case categories of
           Inl e \<Rightarrow> (Inl e, g3)
         | Inr categories \<Rightarrow>
             (let (regions, g4) =
                    choice R [''North'', ''South'', ''East'', ''West'', ''Central'']
                      (length dates) g3
              in case regions of
                   Inl e \<Rightarrow> (Inl e, g4)
                 | Inr regions \<Rightarrow> (DataFrame dates sales categories regions, g4)))"

text \<open>
  \<^verbatim>\<open>@st.cache_data\<close>, line 42: the first call that returns a frame stores it, and later
  calls return the stored frame without running the function. The cache is the first
  component of the state.
\<close>

definition generate_data_cached ::
  "float_ops \<Rightarrow> 's rng \<Rightarrow> dataframe option \<times> 's
     \<Rightarrow> (py_error + dataframe) \<times> (dataframe option \<times> 's)" where
  "generate_data_cached F R st =
     (case fst st of
        Some df \<Rightarrow> (Inr df, st)
      | None \<Rightarrow>
          (case generate_data F R (snd st) of
             (Inr df, g) \<Rightarrow> (Inr df, (Some df, g))
           | (Inl e, g) \<Rightarrow> (Inl e, (None, g))))"

section \<open>Sums and grouped sums\<close>




section \<open>Example inputs\<close>

text \<open>
  Inputs at which the theorems below are instantiated: two small frames, and a linear
  congruential generator whose bounded draw reduces the state modulo the width of the
  range.
\<close>

definition example_frame :: dataframe where
  "example_frame =
     [(0, \<lparr>Date = (2023, 1, 1), Sales = 202, Category = ''Food'', Region = ''North''\<rparr>),
      (1, \<lparr>Date = (2023, 1, 2), Sales = 535, Category = ''Books'', Region = ''East''\<rparr>),
      (2, \<lparr>Date = (2023, 1, 3), Sales = 960, Category = ''Food'', Region = ''West''\<rparr>)]"


definition lcg :: "nat rng" where
  "lcg = \<lparr>seed = (\<lambda>n. n),
          randint1 = (\<lambda>lo hi s. (lo + int (s mod nat (hi - lo)),
                                 (1103515245 * s + 12345) mod 2147483648))\<rparr>"

section \<open>Properties of the filters\<close>

lemma boolean_index_map:
  "boolean_index df (map p df) = filter p df"
  unfolding boolean_index_def by (induction df) simp_all

lemma mask_and_map:
  "mask_and (map p xs) (map q xs) = map (\<lambda>x. p x \<and> q x) xs"
  unfolding mask_and_def by (induction xs) simp_all

lemma filtered_data_by_date_filter:
  "filtered_data_by_date df s e = filter (\<lambda>ir. s \<le> Date (snd ir) \<and> Date (snd ir) \<le> e) df"
proof -
  have "mask_and (series_ge (column Date df) s) (series_le (column Date df) e)
        = map (\<lambda>ir. s \<le> Date (snd ir) \<and> Date (snd ir) \<le> e) df"
    unfolding series_ge_def series_le_def column_def map_map comp_def
    by (rule mask_and_map)
  then show ?thesis
    unfolding filtered_data_by_date_def by (simp only: boolean_index_map)
qed

lemma filtered_data_by_membership_filter:
  "filtered_data_by_membership df cs rs
   = filter (\<lambda>ir. Category (snd ir) \<in> set cs \<and> Region (snd ir) \<in> set rs) df"
proof -
  have "mask_and (isin (column Category df) cs) (isin (column Region df) rs)
        = map (\<lambda>ir. Category (snd ir) \<in> set cs \<and> Region (snd ir) \<in> set rs) df"
    unfolding isin_def column_def map_map comp_def
    by (rule mask_and_map)
  then show ?thesis
    unfolding filtered_data_by_membership_def by (simp only: boolean_index_map)
qed

lemma fold_min_le: "fold min ds (d :: 'a :: linorder) \<le> d"
proof (induction ds arbitrary: d)
  case Nil
  then show ?case by simp
next
  case (Cons a ds)
  have "fold min ds (min a d) \<le> min a d" by (rule Cons.IH)
  also have "\<dots> \<le> d" by simp
  finally show ?case by simp
qed

lemma fold_min_le_mem: "x \<in> set ds \<Longrightarrow> fold min ds (d :: 'a :: linorder) \<le> x"
proof (induction ds arbitrary: d)
  case Nil
  then show ?case by simp
next
  case (Cons a ds)
  show ?case
  proof (cases "x = a")
    case True
    have "fold min ds (min a d) \<le> min a d" by (rule fold_min_le)
    also have "\<dots> \<le> a" by simp
    finally show ?thesis using True by simp
  next
    case False
    with Cons.prems have "x \<in> set ds" by simp
    then show ?thesis using Cons.IH by simp
  qed
qed

lemma fold_max_ge: "(d :: 'a :: linorder) \<le> fold max ds d"
proof (induction ds arbitrary: d)
  case Nil
  then show ?case by simp
next
  case (Cons a ds)
  have "d \<le> max a d" by simp
  also have "\<dots> \<le> fold max ds (max a d)" by (rule Cons.IH)
  finally show ?case by simp
qed

lemma fold_max_ge_mem: "x \<in> set ds \<Longrightarrow> x \<le> fold max ds (d :: 'a :: linorder)"
proof (induction ds arbitrary: d)
  case Nil
  then show ?case by simp
next
  case (Cons a ds)
  show ?case
  proof (cases "x = a")
    case True
    have "a \<le> max a d" by simp
    also have "\<dots> \<le> fold max ds (max a d)" by (rule fold_max_ge)
    finally show ?thesis using True by simp
  next
    case False
    with Cons.prems have "x \<in> set ds" by simp
    then show ?thesis using Cons.IH by simp
  qed
qed

lemma series_min_le:
  assumes "series_min col = Some lo" and "x \<in> set col"
  shows "lo \<le> x"
proof (cases col)
  case Nil
  with assms show ?thesis by simp
next
  case (Cons d ds)
  with assms(1) have lo: "lo = fold min ds d" by (simp add: series_min_def)
  from assms(2) Cons have "x = d \<or> x \<in> set ds" by simp
  then show ?thesis
    unfolding lo using fold_min_le [of ds d] fold_min_le_mem [of x ds d] by blast
qed

lemma series_max_ge:
  assumes "series_max col = Some hi" and "x \<in> set col"
  shows "x \<le> hi"
proof (cases col)
  case Nil
  with assms show ?thesis by simp
next
  case (Cons d ds)
  with assms(1) have hi: "hi = fold max ds d" by (simp add: series_max_def)
  from assms(2) Cons have "x = d \<or> x \<in> set ds" by simp
  then show ?thesis
    unfolding hi using fold_max_ge [of d ds] fold_max_ge_mem [of x ds d] by blast
qed

lemma set_unique: "set (unique xs) = set xs"
  by (induction xs rule: unique.induct) auto

lemma filter_id_conv_all: "(\<And>x. x \<in> set xs \<Longrightarrow> P x) \<Longrightarrow> filter P xs = xs"
  by (induction xs) simp_all


lemma column_filter_sorted:
  "sorted_wrt (<) (column Date df) \<Longrightarrow> sorted_wrt (<) (column Date (filter P df))"
  unfolding column_def sorted_wrt_map by (rule sorted_wrt_filter)

text \<open>
  C3. For every frame and every pair of bounds, the date-range filter of the Dashboard
  page returns exactly the rows whose date \<open>d\<close> satisfies \<open>start \<le> d \<le> end\<close>, both bounds
  inclusive, in their original order; and when \<open>start > end\<close> the result is the empty
  frame. The filter is a total function: it has no error result.
\<close>

theorem date_filter_exact:
  "filtered_data_by_date df start_date end_date
     = filter (\<lambda>ir. start_date \<le> Date (snd ir) \<and> Date (snd ir) \<le> end_date) df
   \<and> (end_date < start_date \<longrightarrow> filtered_data_by_date df start_date end_date = [])"
proof -
  have "filter (\<lambda>ir. start_date \<le> Date (snd ir) \<and> Date (snd ir) \<le> end_date) df = []"
    if "end_date < start_date"
  proof -
    have "\<not> (start_date \<le> d \<and> d \<le> end_date)" for d
      using that by (meson leD order_trans)
    then show ?thesis by simp
  qed
  then show ?thesis by (simp add: filtered_data_by_date_filter)
qed

theorem date_filter_exact_witness:
  "((2023, 1, 1) :: date) < (2023, 1, 3)
   \<and> filtered_data_by_date example_frame (2023, 1, 3) (2023, 1, 1) = []"
proof -
  have h: "((2023, 1, 1) :: date) < (2023, 1, 3)" by simp
  from date_filter_exact [of example_frame "(2023, 1, 3)" "(2023, 1, 1)", THEN conjunct2, THEN mp, OF h]
  show ?thesis using h by simp
qed

text \<open>
  C6. For every frame and every pair of selections, the membership filter of the Data
  Explorer page returns exactly the rows whose category is among the selected
  categories and whose region is among the selected regions; when either selection is
  empty the result is the empty frame.
\<close>

theorem membership_filter_exact:
  "filtered_data_by_membership df cs rs
     = filter (\<lambda>ir. Category (snd ir) \<in> set cs \<and> Region (snd ir) \<in> set rs) df
   \<and> filtered_data_by_membership df [] rs = []
   \<and> filtered_data_by_membership df cs [] = []"
  by (simp add: filtered_data_by_membership_filter)

text \<open>
  C8. Both filters preserve order: the filtered frame is a subsequence of the source
  frame, in the source's order; so when the dates of the source are strictly
  ascending, the dates of every filtered view are strictly ascending too.
\<close>

theorem filters_preserve_order:
  "subseq (filtered_data_by_date df start_date end_date) df
   \<and> subseq (filtered_data_by_membership df cs rs) df
   \<and> (sorted_wrt (<) (column Date df) \<longrightarrow>
        sorted_wrt (<) (column Date (filtered_data_by_date df start_date end_date))
        \<and> sorted_wrt (<) (column Date (filtered_data_by_membership df cs rs)))"
  by (simp add: filtered_data_by_date_filter filtered_data_by_membership_filter
      column_filter_sorted)

theorem filters_preserve_order_witness:
  "sorted_wrt (<) (column Date example_frame)
   \<and> sorted_wrt (<) (column Date (filtered_data_by_date example_frame (2023, 1, 2) (2023, 1, 3)))
   \<and> sorted_wrt (<) (column Date (filtered_data_by_membership example_frame [''Food''] [''North'', ''West'']))
   \<and> column Date (filtered_data_by_date example_frame (2023, 1, 2) (2023, 1, 3))
       = [(2023, 1, 2), (2023, 1, 3)]
   \<and> column Date (filtered_data_by_membership example_frame [''Food''] [''North'', ''West''])
       = [(2023, 1, 1), (2023, 1, 3)]"
proof -
  have h: "sorted_wrt (<) (column Date example_frame)"
    by (simp add: example_frame_def column_def)
  note r = filters_preserve_order [of example_frame "(2023, 1, 2)" "(2023, 1, 3)"
      "[''Food'']" "[''North'', ''West'']", THEN conjunct2, THEN conjunct2, THEN mp, OF h]
  have d: "column Date (filtered_data_by_date example_frame (2023, 1, 2) (2023, 1, 3))
       = [(2023, 1, 2), (2023, 1, 3)]"
    by (simp add: filtered_data_by_date_filter example_frame_def column_def)
  have m: "column Date (filtered_data_by_membership example_frame [''Food''] [''North'', ''West''])
       = [(2023, 1, 1), (2023, 1, 3)]"
    by (simp add: filtered_data_by_membership_filter example_frame_def column_def)
  from h r d m show ?thesis by blast
qed

text \<open>
  C9. Filtering with all-inclusive parameters is the identity. The date-range filter
  with the least date of the frame as start and the greatest as end returns the frame
  unchanged, and the membership filter with selections that contain every category
  and every region of the frame returns the frame unchanged; the widgets' defaults
  (\<^verbatim>\<open>unique()\<close> of each column) are such selections.
\<close>

theorem all_inclusive_filters_identity:
  "(series_min (column Date df) = Some lo \<and> series_max (column Date df) = Some hi
      \<longrightarrow> filtered_data_by_date df lo hi = df)
   \<and> (set (column Category df) \<subseteq> set cs \<and> set (column Region df) \<subseteq> set rs
      \<longrightarrow> filtered_data_by_membership df cs rs = df)
   \<and> filtered_data_by_membership df (unique (column Category df)) (unique (column Region df)) = df"
proof -
  have a: "filtered_data_by_date df lo hi = df"
    if "series_min (column Date df) = Some lo" and "series_max (column Date df) = Some hi"
  proof -
    have "lo \<le> Date (snd ir) \<and> Date (snd ir) \<le> hi" if "ir \<in> set df" for ir
    proof -
      from \<open>ir \<in> set df\<close> have "Date (snd ir) \<in> set (column Date df)"
        by (simp add: column_def)
      then show ?thesis
        using series_min_le [OF \<open>series_min (column Date df) = Some lo\<close>]
          series_max_ge [OF \<open>series_max (column Date df) = Some hi\<close>] by blast
    qed
    then show ?thesis
      unfolding filtered_data_by_date_filter by (intro filter_id_conv_all) blast
  qed
  have b: "filtered_data_by_membership df cs' rs' = df"
    if "set (column Category df) \<subseteq> set cs'" and "set (column Region df) \<subseteq> set rs'"
    for cs' rs'
  proof -
    have "Category (snd ir) \<in> set cs' \<and> Region (snd ir) \<in> set rs'" if "ir \<in> set df" for ir
    proof -
      from \<open>ir \<in> set df\<close> have "Category (snd ir) \<in> set (column Category df)"
        and "Region (snd ir) \<in> set (column Region df)"
        by (simp_all add: column_def)
      with \<open>set (column Category df) \<subseteq> set cs'\<close> \<open>set (column Region df) \<subseteq> set rs'\<close>
      show ?thesis by blast
    qed
    then show ?thesis
      unfolding filtered_data_by_membership_filter by (intro filter_id_conv_all) blast
  qed
  have c: "filtered_data_by_membership df (unique (column Category df)) (unique (column Region df)) = df"
    by (rule b) (simp_all add: set_unique)
  from a b c show ?thesis by blast
qed

theorem all_inclusive_filters_identity_witness:
  "series_min (column Date example_frame) = Some (2023, 1, 1)
   \<and> series_max (column Date example_frame) = Some (2023, 1, 3)
   \<and> filtered_data_by_date example_frame (2023, 1, 1) (2023, 1, 3) = example_frame
   \<and> set (column Category example_frame) \<subseteq> set [''Books'', ''Food'', ''Home'']
   \<and> set (column Region example_frame) \<subseteq> set [''North'', ''East'', ''West'']
   \<and> filtered_data_by_membership example_frame [''Books'', ''Food'', ''Home'']
        [''North'', ''East'', ''West''] = example_frame"
proof -
  have lo: "series_min (column Date example_frame) = Some (2023, 1, 1)"
    by (simp add: series_min_def example_frame_def column_def)
  have hi: "series_max (column Date example_frame) = Some (2023, 1, 3)"
    by (simp add: series_max_def example_frame_def column_def)
  have c: "set (column Category example_frame) \<subseteq> set [''Books'', ''Food'', ''Home'']"
    by (simp add: example_frame_def column_def)
  have r: "set (column Region example_frame) \<subseteq> set [''North'', ''East'', ''West'']"
    by (simp add: example_frame_def column_def)
  note t = all_inclusive_filters_identity [of example_frame "(2023, 1, 1)" "(2023, 1, 3)"
      "[''Books'', ''Food'', ''Home'']" "[''North'', ''East'', ''West'']"]
  from t lo hi have d: "filtered_data_by_date example_frame (2023, 1, 1) (2023, 1, 3) = example_frame"
    by blast
  from t c r have m: "filtered_data_by_membership example_frame [''Books'', ''Food'', ''Home'']
        [''North'', ''East'', ''West''] = example_frame"
    by blast
  from lo hi d c r m show ?thesis by blast
qed

section \<open>Properties of float64 rounding\<close>

lemma round_half_even_int: "round_half_even (of_int k) = k"
  by (simp add: round_half_even_def)

lemma floor_log2_eq:
  assumes "2 ^ n \<le> x" and "x < 2 ^ Suc n"
  shows "\<lfloor>log 2 x\<rfloor> = int n"
proof -
  from assms have pos: "0 < x" by (smt (verit) zero_less_power)
  have "real n \<le> log 2 x"
    using assms(1) pos by (simp add: le_log_iff powr_realpow)
  moreover have "log 2 x < real n + 1"
    using assms(2) pos by (simp add: log_less_iff powr_realpow powr_add)
  ultimately show ?thesis by (simp add: floor_eq_iff)
qed

lemma round_f64_pow: "round_f64 (2 ^ 53) = 2 ^ 53"
proof -
  have e: "\<lfloor>log 2 \<bar>2 ^ 53 :: real\<bar>\<rfloor> = 53"
    using floor_log2_eq [of 53 "2 ^ 53"] by simp
  have u: "(2 :: real) powr (of_int 53 - 52) = 2" by simp
  have "round_half_even ((2 ^ 53) / 2) = 2 ^ 52"
    using round_half_even_int [of "2 ^ 52"] by simp
  then show ?thesis
    unfolding round_f64_def Let_def e u by simp
qed


lemma round_half_even_bounds: "\<lfloor>x\<rfloor> \<le> round_half_even x \<and> round_half_even x \<le> \<lfloor>x\<rfloor> + 1"
  by (simp add: round_half_even_def Let_def)

lemma round_half_even_mono:
  assumes "x \<le> y"
  shows "round_half_even x \<le> round_half_even y"
proof (cases "\<lfloor>x\<rfloor> = \<lfloor>y\<rfloor>")
  case True
  with assms have "x - of_int \<lfloor>x\<rfloor> \<le> y - of_int \<lfloor>y\<rfloor>" by simp
  then show ?thesis
    unfolding round_half_even_def Let_def using True by auto
next
  case False
  with assms have "\<lfloor>x\<rfloor> < \<lfloor>y\<rfloor>" using floor_mono [of x y] by linarith
  then show ?thesis
    using round_half_even_bounds [of x] round_half_even_bounds [of y] by linarith
qed

lemma round_half_even_minus: "round_half_even (- x) = - round_half_even x"
proof (cases "x \<in> \<int>")
  case True
  then obtain k where "x = of_int k" by (auto elim: Ints_cases)
  then show ?thesis
    using round_half_even_int [of k] round_half_even_int [of "- k"] by simp
next
  case False
  then have ne: "x \<noteq> of_int \<lfloor>x\<rfloor>" by (metis Ints_of_int)
  then have f: "\<lfloor>- x\<rfloor> = - \<lfloor>x\<rfloor> - 1"
    by (simp add: floor_minus ceiling_altdef)
  show ?thesis
    unfolding round_half_even_def Let_def f by (auto simp: algebra_simps)
qed


lemma round_f64_minus: "round_f64 (- x) = - round_f64 x"
  by (simp add: round_f64_def Let_def round_half_even_minus)

lemma round_f64_pos_bounds:
  assumes "0 < x"
  shows "2 powr of_int \<lfloor>log 2 x\<rfloor> \<le> round_f64 x
       \<and> round_f64 x \<le> 2 powr (of_int \<lfloor>log 2 x\<rfloor> + 1)"
proof -
  define e where "e = \<lfloor>log 2 x\<rfloor>"
  define u :: real where "u = 2 powr (of_int e - 52)"
  have upos: "0 < u" unfolding u_def by simp
  have lo: "2 powr of_int e \<le> x"
    using assms unfolding e_def by (simp add: powr_le_iff)
  have hi: "x < 2 powr (of_int e + 1)"
    using assms unfolding e_def by (simp add: less_powr_iff)
  have u52: "2 ^ 52 * u = 2 powr of_int e"
    unfolding u_def by (simp add: powr_diff)
  have u53: "2 ^ 53 * u = 2 powr (of_int e + 1)"
    unfolding u_def by (simp add: powr_diff powr_add)
  have q_lo: "2 ^ 52 \<le> x / u" using lo upos u52 by (simp add: pos_le_divide_eq)
  have q_hi: "x / u < 2 ^ 53" using hi upos u53 by (simp add: pos_divide_less_eq)
  have "round_half_even (of_int (2 ^ 52)) \<le> round_half_even (x / u)"
    using q_lo by (intro round_half_even_mono) simp
  then have r_lo: "2 ^ 52 \<le> round_half_even (x / u)"
    unfolding round_half_even_int .
  have "\<lfloor>x / u\<rfloor> < 2 ^ 53" using q_hi by (simp add: floor_less_iff)
  then have r_hi: "round_half_even (x / u) \<le> 2 ^ 53"
    using round_half_even_bounds [of "x / u"] by linarith
  have r: "round_f64 x = of_int (round_half_even (x / u)) * u"
    using assms unfolding round_f64_def Let_def e_def u_def by simp
  have "2 ^ 52 * u \<le> of_int (round_half_even (x / u)) * u"
    using r_lo upos by (intro mult_right_mono) (simp_all add: of_int_le_iff [symmetric] del: of_int_le_iff)
  moreover have "of_int (round_half_even (x / u)) * u \<le> 2 ^ 53 * u"
    using r_hi upos by (intro mult_right_mono) (simp_all add: of_int_le_iff [symmetric] del: of_int_le_iff)
  ultimately show ?thesis unfolding r u52 [symmetric] u53 [symmetric] e_def [symmetric] by simp
qed

lemma round_f64_pos: "0 < x \<Longrightarrow> 0 < round_f64 x"
  using round_f64_pos_bounds [of x] by (smt (verit) powr_gt_zero)

lemma round_f64_mono_pos:
  assumes "0 < x" and "x \<le> y"
  shows "round_f64 x \<le> round_f64 y"
proof -
  from assms have y: "0 < y" by simp
  define ex where "ex = \<lfloor>log 2 x\<rfloor>"
  define ey where "ey = \<lfloor>log 2 y\<rfloor>"
  have "log 2 x \<le> log 2 y" using assms by simp
  then have le: "ex \<le> ey" unfolding ex_def ey_def by (rule floor_mono)
  show ?thesis
  proof (cases "ex = ey")
    case True
    define u :: real where "u = 2 powr (of_int ex - 52)"
    have upos: "0 < u" unfolding u_def by simp
    have rx: "round_f64 x = of_int (round_half_even (x / u)) * u"
      using assms(1) unfolding round_f64_def Let_def ex_def u_def by simp
    have ry: "round_f64 y = of_int (round_half_even (y / u)) * u"
      using y unfolding round_f64_def Let_def u_def True ey_def by simp
    have "x / u \<le> y / u" using assms(2) upos by (simp add: divide_right_mono)
    then have "round_half_even (x / u) \<le> round_half_even (y / u)"
      by (rule round_half_even_mono)
    then have "(of_int (round_half_even (x / u)) :: real) \<le> of_int (round_half_even (y / u))"
      by simp
    then show ?thesis unfolding rx ry using upos by (simp add: mult_right_mono)
  next
    case False
    with le have "ex + 1 \<le> ey" by simp
    then have "(2 :: real) powr (of_int ex + 1) \<le> 2 powr of_int ey"
      by (simp add: of_int_le_iff [symmetric] del: of_int_le_iff)
    moreover have "round_f64 x \<le> 2 powr (of_int ex + 1)"
      using round_f64_pos_bounds [OF assms(1)] unfolding ex_def by simp
    moreover have "2 powr of_int ey \<le> round_f64 y"
      using round_f64_pos_bounds [OF y] unfolding ey_def by simp
    ultimately show ?thesis by linarith
  qed
qed

lemma round_f64_mono:
  assumes "x \<le> y"
  shows "round_f64 x \<le> round_f64 y"
proof -
  consider "0 < x" | "x \<le> 0" "0 < y" | "x = 0" "y = 0" | "x < 0" "y \<le> 0"
    using assms by linarith
  then show ?thesis
  proof cases
    case 1
    then show ?thesis using assms by (rule round_f64_mono_pos)
  next
    case 2
    have "round_f64 x \<le> 0"
    proof (cases "x = 0")
      case True
      then show ?thesis by (simp add: round_f64_def)
    next
      case False
      with 2 have "0 < - x" by simp
      from round_f64_pos [OF this] show ?thesis by (simp add: round_f64_minus)
    qed
    moreover have "0 < round_f64 y" using 2 by (intro round_f64_pos)
    ultimately show ?thesis by linarith
  next
    case 3
    then show ?thesis by simp
  next
    case 4
    show ?thesis
    proof (cases "y = 0")
      case True
      from 4 have "0 < - x" by simp
      from round_f64_pos [OF this] have "round_f64 x < 0" by (simp add: round_f64_minus)
      moreover have "round_f64 y = 0" using True by (simp add: round_f64_def)
      ultimately show ?thesis by simp
    next
      case False
      with 4 have "0 < - y" "- y \<le> - x" using assms by simp_all
      from round_f64_mono_pos [OF this] show ?thesis by (simp add: round_f64_minus)
    qed
  qed
qed

lemma round_f64_int:
  assumes "\<bar>k\<bar> \<le> 2 ^ 53"
  shows "round_f64 (of_int k) = of_int k"
proof (cases "k = 0")
  case True
  then show ?thesis by (simp add: round_f64_def)
next
  case False
  define x :: real where "x = of_int k"
  define e where "e = \<lfloor>log 2 \<bar>x\<bar>\<rfloor>"
  define u :: real where "u = 2 powr (of_int e - 52)"
  have ax: "\<bar>x\<bar> = of_int \<bar>k\<bar>" unfolding x_def by simp
  from False have "1 \<le> \<bar>k\<bar>" by simp
  then have x1: "1 \<le> \<bar>x\<bar>" unfolding ax by linarith
  from assms have "(of_int \<bar>k\<bar> :: real) \<le> of_int (2 ^ 53)" by (simp only: of_int_le_iff)
  then have x53: "\<bar>x\<bar> \<le> 2 ^ 53" unfolding ax by simp
  have e0: "0 \<le> e" unfolding e_def using x1 by simp
  have "log 2 \<bar>x\<bar> < 54" using x1 x53 by (simp add: log_less_iff)
  then have e53: "e \<le> 53" unfolding e_def by (simp add: floor_le_iff)
  have upos: "0 < u" unfolding u_def by simp
  have "\<exists>m :: int. x / u = of_int m"
  proof (cases "e \<le> 52")
    case True
    then have "of_int e - 52 = - real (nat (52 - e))" by simp
    then have "u = 1 / 2 ^ nat (52 - e)"
      unfolding u_def by (simp only: powr_minus_divide powr_realpow zero_less_numeral)
    then have "x / u = of_int (k * 2 ^ nat (52 - e))" by (simp add: x_def)
    then show ?thesis by blast
  next
    case False
    with e53 have e: "e = 53" by simp
    then have "53 \<le> log 2 \<bar>x\<bar>" unfolding e_def by linarith
    then have "2 ^ 53 \<le> \<bar>x\<bar>" using x1 by (simp add: le_log_iff powr_realpow)
    with x53 have "\<bar>x\<bar> = 2 ^ 53" by simp
    then have "x = 2 ^ 53 \<or> x = - (2 ^ 53)" by linarith
    moreover have "u = 2" unfolding u_def e by simp
    ultimately have "x / u = of_int (2 ^ 52) \<or> x / u = of_int (- (2 ^ 52))" by auto
    then show ?thesis by blast
  qed
  then obtain m :: int where m: "x / u = of_int m" by blast
  have "x \<noteq> 0" using x1 by auto
  then have "round_f64 x = of_int (round_half_even (x / u)) * u"
    unfolding round_f64_def Let_def e_def u_def by simp
  also have "\<dots> = x / u * u" unfolding m round_half_even_int ..
  also have "\<dots> = x" using upos by simp
  finally show ?thesis unfolding x_def .
qed






lemma float64_ops_ieee: "ieee_like float64_ops"
proof -
  have "round_f64 (- 1) \<le> round_f64 (sin x) \<and> round_f64 (sin x) \<le> round_f64 1" for x
    by (simp add: round_f64_mono)
  moreover have "round_f64 1 = 1" using round_f64_int [of 1] by simp
  moreover have "round_f64 (- 1) = - 1" using round_f64_int [of "- 1"] by simp
  ultimately have "- 1 \<le> round_f64 (sin x) \<and> round_f64 (sin x) \<le> 1" for x
    by metis
  then show ?thesis
    by (simp add: ieee_like_def float64_ops_def round_f64_mono round_f64_int)
qed

section \<open>Properties of the generator\<close>

lemma next_day_greater: "a < next_day a"
  unfolding next_day_def by (cases a) (simp add: less_prod_def less_eq_prod_def)

lemma consecutive_days_sorted: "consecutive_days ds \<Longrightarrow> sorted_wrt (<) ds"
proof (induction ds rule: consecutive_days.induct)
  case (1 a b ds)
  from "1.prems" have b: "b = next_day a" and c: "consecutive_days (b # ds)" by auto
  from b have ab: "a < b" using next_day_greater [of a] by simp
  from c have s: "sorted_wrt (<) (b # ds)" by (rule "1.IH")
  from s have "\<forall>x \<in> set ds. b < x" by simp
  with ab have "\<forall>x \<in> set (b # ds). a < x" by (auto intro: less_trans)
  with s show ?case by simp
qed simp_all

lemma ymd2ord_first: "ymd2ord (2023, 1, 1) = 738521"
  by (simp add: ymd2ord_def days_before_year_def days_before_month_def DAYS_BEFORE_MONTH_def)

lemma ymd2ord_last: "ymd2ord (2023, 12, 31) = 738885"
  by (simp add: ymd2ord_def days_before_year_def days_before_month_def DAYS_BEFORE_MONTH_def
      is_leap_def)

lemma date_range_2023: "date_range (2023, 1, 1) (2023, 12, 31) = calendar_days 2023"
  by code_simp

lemma consecutive_2023: "consecutive_days (calendar_days 2023)"
  by code_simp

lemma length_date_range_2023: "length (date_range (2023, 1, 1) (2023, 12, 31)) = 365"
  by (simp add: date_range_def ymd2ord_first ymd2ord_last)

lemma length_randint: "length (fst (randint R lo hi n g)) = n"
  by (induction n arbitrary: g) (simp_all add: split_beta Let_def)

lemma randint_range:
  "rng_contract R \<Longrightarrow> lo < hi \<Longrightarrow> v \<in> set (fst (randint R lo hi n g)) \<Longrightarrow> lo \<le> v \<and> v < hi"
proof (induction n arbitrary: g)
  case 0
  then show ?case by simp
next
  case (Suc n)
  from Suc.prems(3) have "v = fst (randint1 R lo hi g)
      \<or> v \<in> set (fst (randint R lo hi n (snd (randint1 R lo hi g))))"
    by (simp add: split_beta Let_def)
  then show ?case
  proof
    assume "v = fst (randint1 R lo hi g)"
    with Suc.prems(1,2) show ?thesis unfolding rng_contract_def by blast
  next
    assume "v \<in> set (fst (randint R lo hi n (snd (randint1 R lo hi g))))"
    with Suc.IH Suc.prems(1,2) show ?thesis by blast
  qed
qed

lemma take_all_ok:
  "\<forall>i \<in> set js. 0 \<le> i \<and> i < int (length a) \<Longrightarrow>
     \<exists>xs. take_all a js = Inr xs \<and> length xs = length js \<and> set xs \<subseteq> set a"
proof (induction js)
  case Nil
  then show ?case by simp
next
  case (Cons i js)
  then obtain xs where xs: "take_all a js = Inr xs" "length xs = length js" "set xs \<subseteq> set a"
    by auto
  from Cons.prems have i: "0 \<le> i" "i < int (length a)" by simp_all
  then have "take_index a i = Inr (a ! nat i)"
    by (simp add: take_index_def Let_def)
  moreover from i have "a ! nat i \<in> set a" by simp
  ultimately show ?case using xs by simp
qed

lemma choice_ok:
  assumes "rng_contract R" and "a \<noteq> []"
  shows "\<exists>xs. fst (choice R a n g) = Inr xs \<and> length xs = n \<and> set xs \<subseteq> set a"
proof -
  have "\<forall>i \<in> set (fst (randint R 0 (int (length a)) n g)). 0 \<le> i \<and> i < int (length a)"
    using randint_range [OF assms(1), of 0 "int (length a)"] assms(2) by auto
  from take_all_ok [OF this] show ?thesis
    by (simp add: choice_def split_beta Let_def length_randint)
qed


lemma DataFrame_columns:
  assumes "length sales = length dates" and "length cats = length dates"
    and "length regs = length dates"
  shows "\<exists>df. DataFrame dates sales cats regs = Inr df
           \<and> length df = length dates
           \<and> map fst df = [0..<length dates]
           \<and> column Date df = dates \<and> column Sales df = sales
           \<and> column Category df = cats \<and> column Region df = regs"
proof -
  let ?df = "zip [0..<length dates]
             (map (\<lambda>(d, s, c, r). \<lparr>Date = d, Sales = s, Category = c, Region = r\<rparr>)
                (zip dates (zip sales (zip cats regs))))"
  have df: "DataFrame dates sales cats regs = Inr ?df"
    using assms by (simp add: DataFrame_def)
  have len: "length ?df = length dates" using assms by simp
  have ix: "map fst ?df = [0..<length dates]"
    using assms by (intro nth_equalityI) simp_all
  have d: "column Date ?df = dates"
    unfolding column_def using assms by (intro nth_equalityI) simp_all
  have s: "column Sales ?df = sales"
    unfolding column_def using assms by (intro nth_equalityI) simp_all
  have c: "column Category ?df = cats"
    unfolding column_def using assms by (intro nth_equalityI) simp_all
  have r: "column Region ?df = regs"
    unfolding column_def using assms by (intro nth_equalityI) simp_all
  from df len ix d s c r show ?thesis by blast
qed

lemma generate_data_ok:
  assumes "rng_contract R"
  shows "\<exists>df g. generate_data F R g0 = (Inr df, g)
           \<and> length df = 365
           \<and> map fst df = [0..<365]
           \<and> column Date df = date_range (2023, 1, 1) (2023, 12, 31)
           \<and> column Sales df =
                map2 (\<lambda>r x. fadd F (of_int64 F r) x)
                  (fst (randint R 100 1000 365 (seed R 42)))
                  (map (\<lambda>x. fmul F x (of_int64 F 100))
                     (map (fsin F)
                        (map (\<lambda>i. fmul F (of_int64 F i) (rnd F (1 / 10))) (arange 365))))
           \<and> set (column Category df)
                \<subseteq> set [''Electronics'', ''Clothing'', ''Food'', ''Books'', ''Home'']
           \<and> set (column Region df)
                \<subseteq> set [''North'', ''South'', ''East'', ''West'', ''Central'']"
proof -
  define dates where "dates = date_range (2023, 1, 1) (2023, 12, 31)"
  define g2 where "g2 = snd (randint R 100 1000 365 (seed R 42))"
  define sales where "sales =
     map2 (\<lambda>r x. fadd F (of_int64 F r) x)
       (fst (randint R 100 1000 365 (seed R 42)))
       (map (\<lambda>x. fmul F x (of_int64 F 100))
          (map (fsin F)
             (map (\<lambda>i. fmul F (of_int64 F i) (rnd F (1 / 10))) (arange 365))))"
  define g3 where
    "g3 = snd (choice R [''Electronics'', ''Clothing'', ''Food'', ''Books'', ''Home''] 365 g2)"
  have n: "length dates = 365" by (simp add: dates_def length_date_range_2023)
  obtain cats where cats:
    "fst (choice R [''Electronics'', ''Clothing'', ''Food'', ''Books'', ''Home''] 365 g2) = Inr cats"
    "length cats = 365"
    "set cats \<subseteq> set [''Electronics'', ''Clothing'', ''Food'', ''Books'', ''Home'']"
    using choice_ok [OF assms, of "[''Electronics'', ''Clothing'', ''Food'', ''Books'', ''Home'']" 365 g2]
    by auto
  obtain regs where regs:
    "fst (choice R [''North'', ''South'', ''East'', ''West'', ''Central''] 365 g3) = Inr regs"
    "length regs = 365"
    "set regs \<subseteq> set [''North'', ''South'', ''East'', ''West'', ''Central'']"
    using choice_ok [OF assms, of "[''North'', ''South'', ''East'', ''West'', ''Central'']" 365 g3]
    by auto
  have ls: "length sales = 365"
    by (simp add: sales_def length_randint arange_def)
  have gd: "generate_data F R g0
      = (DataFrame dates sales cats regs,
         snd (choice R [''North'', ''South'', ''East'', ''West'', ''Central''] 365 g3))"
    unfolding generate_data_def Let_def split_beta
    unfolding dates_def [symmetric] n
    unfolding g2_def [symmetric]
    unfolding cats(1) g3_def [symmetric]
    unfolding sum.case
    unfolding regs(1) sum.case
    by (simp add: sales_def case_prod_unfold)
  from DataFrame_columns [of sales dates cats regs] ls n cats(2) regs(2)
  obtain df where df: "DataFrame dates sales cats regs = Inr df"
    "length df = length dates" "map fst df = [0..<length dates]"
    "column Date df = dates" "column Sales df = sales"
    "column Category df = cats" "column Region df = regs"
    by auto
  show ?thesis
    using gd df n cats(3) regs(3) unfolding dates_def sales_def by auto
qed


lemma randint_nth1:
  "fst (randint R lo hi (Suc (Suc n)) g) ! 1
   = fst (randint1 R lo hi (snd (randint1 R lo hi g)))"
  by (simp add: split_beta Let_def)

lemma lcg_contract: "rng_contract lcg"
proof -
  have "lo \<le> lo + int (s mod nat (hi - lo)) \<and> lo + int (s mod nat (hi - lo)) < hi"
    if "lo < hi" for lo hi :: int and s :: nat
  proof -
    from that have "0 < nat (hi - lo)" by simp
    then have "s mod nat (hi - lo) < nat (hi - lo)" by (rule mod_less_divisor)
    then have "int (s mod nat (hi - lo)) < hi - lo" using that by linarith
    then show ?thesis by simp
  qed
  then show ?thesis by (simp add: rng_contract_def lcg_def)
qed

lemma exact_ops_ieee: "ieee_like exact_ops"
  by (simp add: ieee_like_def exact_ops_def)

lemma hd_date_range_2023: "hd (date_range (2023, 1, 1) (2023, 12, 31)) = (2023, 1, 1)"
proof -
  have "ord2ymd 738521 = (2023, 1, 1)" by code_simp
  then show ?thesis
    by (simp add: date_range_def ymd2ord_first ymd2ord_last upto_rec1 [of 738521 738885])
qed

lemma last_date_range_2023: "last (date_range (2023, 1, 1) (2023, 12, 31)) = (2023, 12, 31)"
proof -
  have "ord2ymd 738885 = (2023, 12, 31)" by code_simp
  then show ?thesis
    by (simp add: date_range_def ymd2ord_first ymd2ord_last upto_rec2 [of 738521 738885])
qed

text \<open>
  C1. With seed 42 and year 2023 the generator returns a frame of exactly 365 rows whose
  dates are the calendar days of 2023, one row per day in calendar order: strictly
  increasing, without duplicates, each date the day after the one before it, from
  2023-01-01 to 2023-12-31. This holds for every generator that keeps the contract of
  \<^verbatim>\<open>randint\<close>, every float arithmetic and every prior state of the generator.
\<close>

theorem generate_data_dates:
  assumes "rng_contract R"
  shows "\<exists>df g. generate_data F R g0 = (Inr df, g)
           \<and> length df = 365
           \<and> column Date df = calendar_days 2023
           \<and> sorted_wrt (<) (column Date df)
           \<and> distinct (column Date df)
           \<and> consecutive_days (column Date df)
           \<and> hd (column Date df) = (2023, 1, 1)
           \<and> last (column Date df) = (2023, 12, 31)"
proof -
  from generate_data_ok [OF assms, of F g0] obtain df g where
    gd: "generate_data F R g0 = (Inr df, g)" and len: "length df = 365"
    and d: "column Date df = date_range (2023, 1, 1) (2023, 12, 31)"
    by blast
  have c: "column Date df = calendar_days 2023" using d date_range_2023 by simp
  have cons: "consecutive_days (column Date df)" using c consecutive_2023 by simp
  then have so: "sorted_wrt (<) (column Date df)" by (rule consecutive_days_sorted)
  then have di: "distinct (column Date df)" using strict_sorted_iff by blast
  have h: "hd (column Date df) = (2023, 1, 1)" using d hd_date_range_2023 by simp
  have l: "last (column Date df) = (2023, 12, 31)" using d last_date_range_2023 by simp
  from gd len c so di cons h l show ?thesis by blast
qed

theorem generate_data_dates_witness:
  "rng_contract lcg
   \<and> (\<exists>df g. generate_data exact_ops lcg 0 = (Inr df, g)
           \<and> length df = 365
           \<and> column Date df = calendar_days 2023
           \<and> sorted_wrt (<) (column Date df)
           \<and> distinct (column Date df)
           \<and> consecutive_days (column Date df)
           \<and> hd (column Date df) = (2023, 1, 1)
           \<and> last (column Date df) = (2023, 12, 31))"
  using generate_data_dates [OF lcg_contract, of exact_ops 0] lcg_contract by blast

text \<open>
  C2. For every index \<open>i\<close> from 0 to 364, row \<open>i\<close> of the generated frame (index label \<open>i\<close>,
  the \<open>i\<close>-th day of 2023) has as its sales the \<open>i\<close>-th integer drawn by
  \<^verbatim>\<open>randint(100, 1000, size=365)\<close> from the seeded generator, which is at least 100 and
  less than 1000, plus \<open>sin(i * 0.1) * 100\<close>, computed in float arithmetic. That the
  integer is uniformly distributed is a property of the generator and is not stated.
\<close>

theorem generate_data_sales:
  assumes "rng_contract R"
  shows "\<exists>df g. generate_data F R g0 = (Inr df, g)
           \<and> length df = 365
           \<and> length (fst (randint R 100 1000 365 (seed R 42))) = 365
           \<and> (\<forall>i<365.
                 100 \<le> fst (randint R 100 1000 365 (seed R 42)) ! i
               \<and> fst (randint R 100 1000 365 (seed R 42)) ! i < 1000
               \<and> fst (df ! i) = i
               \<and> Date (snd (df ! i)) = calendar_days 2023 ! i
               \<and> Sales (snd (df ! i))
                   = fadd F (of_int64 F (fst (randint R 100 1000 365 (seed R 42)) ! i))
                       (fmul F (fsin F (fmul F (of_int64 F (int i)) (rnd F (1 / 10))))
                          (of_int64 F 100)))"
proof -
  let ?ints = "fst (randint R 100 1000 365 (seed R 42))"
  from generate_data_ok [OF assms, of F g0] obtain df g where
    gd: "generate_data F R g0 = (Inr df, g)" and len: "length df = 365"
    and ix: "map fst df = [0..<365]"
    and d: "column Date df = date_range (2023, 1, 1) (2023, 12, 31)"
    and s: "column Sales df =
                map2 (\<lambda>r x. fadd F (of_int64 F r) x) ?ints
                  (map (\<lambda>x. fmul F x (of_int64 F 100))
                     (map (fsin F)
                        (map (\<lambda>i. fmul F (of_int64 F i) (rnd F (1 / 10))) (arange 365))))"
    by blast
  have li: "length ?ints = 365" by (rule length_randint)
  have body: "100 \<le> ?ints ! i \<and> ?ints ! i < 1000 \<and> fst (df ! i) = i
      \<and> Date (snd (df ! i)) = calendar_days 2023 ! i
      \<and> Sales (snd (df ! i))
          = fadd F (of_int64 F (?ints ! i))
              (fmul F (fsin F (fmul F (of_int64 F (int i)) (rnd F (1 / 10)))) (of_int64 F 100))"
    if i: "i < 365" for i
  proof -
    from i li have "?ints ! i \<in> set ?ints" by simp
    from randint_range [OF assms _ this] have r: "100 \<le> ?ints ! i \<and> ?ints ! i < 1000" by simp
    have "fst (df ! i) = map fst df ! i" using i len by simp
    also have "\<dots> = i" using i by (simp add: ix)
    finally have x: "fst (df ! i) = i" .
    have "Date (snd (df ! i)) = column Date df ! i" using i len by (simp add: column_def)
    then have dd: "Date (snd (df ! i)) = calendar_days 2023 ! i"
      using d date_range_2023 by simp
    have "Sales (snd (df ! i)) = column Sales df ! i" using i len by (simp add: column_def)
    also have "\<dots> = fadd F (of_int64 F (?ints ! i))
              (fmul F (fsin F (fmul F (of_int64 F (int i)) (rnd F (1 / 10)))) (of_int64 F 100))"
      unfolding s using i li by (simp add: arange_def)
    finally show ?thesis using r x dd by blast
  qed
  from gd len li body show ?thesis by blast
qed

theorem generate_data_sales_witness:
  "rng_contract lcg
   \<and> (\<exists>df g. generate_data exact_ops lcg 0 = (Inr df, g)
         \<and> length df = 365
         \<and> fst (randint lcg 100 1000 365 (seed lcg 42)) ! 1 = 127
         \<and> fst (df ! 1) = 1
         \<and> Date (snd (df ! 1)) = (2023, 1, 2)
         \<and> Sales (snd (df ! 1)) = 127 + sin (1 / 10) * 100)"
proof -
  from generate_data_sales [OF lcg_contract, of exact_ops 0] obtain df g where
    gd: "generate_data exact_ops lcg 0 = (Inr df, g)" and len: "length df = 365"
    and all: "\<forall>i<365.
                 100 \<le> fst (randint lcg 100 1000 365 (seed lcg 42)) ! i
               \<and> fst (randint lcg 100 1000 365 (seed lcg 42)) ! i < 1000
               \<and> fst (df ! i) = i
               \<and> Date (snd (df ! i)) = calendar_days 2023 ! i
               \<and> Sales (snd (df ! i))
                   = fadd exact_ops (of_int64 exact_ops (fst (randint lcg 100 1000 365 (seed lcg 42)) ! i))
                       (fmul exact_ops (fsin exact_ops (fmul exact_ops (of_int64 exact_ops (int i)) (rnd exact_ops (1 / 10))))
                          (of_int64 exact_ops 100))"
    by blast
  have r: "fst (randint lcg 100 1000 365 (seed lcg 42)) ! 1 = 127"
    using randint_nth1 [of lcg 100 1000 363 "seed lcg 42"] by (simp add: lcg_def)
  have c: "calendar_days 2023 ! 1 = (2023, 1, 2)" by code_simp
  from all have "fst (df ! 1) = 1
      \<and> Date (snd (df ! 1)) = calendar_days 2023 ! 1
      \<and> Sales (snd (df ! 1))
          = fadd exact_ops (of_int64 exact_ops (fst (randint lcg 100 1000 365 (seed lcg 42)) ! 1))
              (fmul exact_ops (fsin exact_ops (fmul exact_ops (of_int64 exact_ops (int 1)) (rnd exact_ops (1 / 10))))
                 (of_int64 exact_ops 100))"
    by simp
  then have "fst (df ! 1) = 1 \<and> Date (snd (df ! 1)) = (2023, 1, 2)
      \<and> Sales (snd (df ! 1)) = 127 + sin (1 / 10) * 100"
    unfolding r c by (simp add: fadd_def fmul_def of_int64_def exact_ops_def)
  with gd len r lcg_contract show ?thesis by blast
qed

text \<open>
  C10. Every sales value of the generated frame is nonnegative, in every float
  arithmetic with monotone rounding in which the small integers are floats and the
  sine is at least \<open>-1\<close>: the integer drawn is at least 100 and the rounded sinusoidal
  term is at least \<open>-100\<close>.
\<close>

theorem generate_data_sales_nonneg:
  assumes "rng_contract R" and "ieee_like F"
  shows "\<exists>df g. generate_data F R g0 = (Inr df, g)
           \<and> length df = 365
           \<and> (\<forall>ir \<in> set df. 0 \<le> Sales (snd ir))"
proof -
  let ?ints = "fst (randint R 100 1000 365 (seed R 42))"
  let ?waves = "map (\<lambda>x. fmul F x (of_int64 F 100))
                     (map (fsin F)
                        (map (\<lambda>i. fmul F (of_int64 F i) (rnd F (1 / 10))) (arange 365)))"
  from generate_data_ok [OF assms(1), of F g0] obtain df g where
    gd: "generate_data F R g0 = (Inr df, g)" and len: "length df = 365"
    and s: "column Sales df = map2 (\<lambda>r x. fadd F (of_int64 F r) x) ?ints ?waves"
    by blast
  from assms(2) have mono: "\<And>x y. x \<le> y \<Longrightarrow> rnd F x \<le> rnd F y"
    and exact: "\<And>k :: int. \<bar>k\<bar> \<le> 2 ^ 53 \<Longrightarrow> rnd F (of_int k) = of_int k"
    and sin_lo: "\<And>x. - 1 \<le> fsin F x"
    unfolding ieee_like_def by blast+
  have e0: "rnd F 0 = 0" using exact [of 0] by simp
  have e100: "of_int64 F 100 = 100" using exact [of 100] by (simp add: of_int64_def)
  have em100: "rnd F (- 100) = - 100" using exact [of "- 100"] by simp
  have wave: "- 100 \<le> y" if "y \<in> set ?waves" for y
  proof -
    from that obtain z where y: "y = fmul F (fsin F z) (of_int64 F 100)" by auto
    have "- 100 \<le> fsin F z * 100" using sin_lo [of z] by simp
    then have "rnd F (- 100) \<le> rnd F (fsin F z * 100)" by (rule mono)
    then show ?thesis unfolding y fmul_def e100 em100 .
  qed
  have draw: "of_int64 F r = of_int r \<and> 100 \<le> r" if "r \<in> set ?ints" for r
  proof -
    from randint_range [OF assms(1) _ that] have b: "100 \<le> r \<and> r < 1000" by simp
    then have "\<bar>r\<bar> \<le> 2 ^ 53" by simp
    from exact [OF this] b show ?thesis by (simp add: of_int64_def)
  qed
  have "0 \<le> v" if "v \<in> set (column Sales df)" for v
  proof -
    from that obtain r y where ry: "(r, y) \<in> set (zip ?ints ?waves)"
      and v: "v = fadd F (of_int64 F r) y"
      unfolding s by auto
    from ry have "r \<in> set ?ints" and "y \<in> set ?waves"
      by (auto dest: set_zip_leftD set_zip_rightD)
    with draw wave have "of_int64 F r = of_int r" "100 \<le> r" "- 100 \<le> y" by blast+
    then have "0 \<le> of_int64 F r + y" by simp
    then have "rnd F 0 \<le> rnd F (of_int64 F r + y)" by (rule mono)
    then show ?thesis unfolding v fadd_def e0 .
  qed
  then have "\<forall>ir \<in> set df. 0 \<le> Sales (snd ir)" by (simp add: column_def)
  with gd len show ?thesis by blast
qed

theorem generate_data_sales_nonneg_witness:
  "rng_contract lcg \<and> ieee_like float64_ops
   \<and> (\<exists>df g. generate_data float64_ops lcg 0 = (Inr df, g)
           \<and> length df = 365
           \<and> 0 \<le> Sales (snd (df ! 110)))"
proof -
  from generate_data_sales_nonneg [OF lcg_contract float64_ops_ieee, of 0] obtain df g where
    gd: "generate_data float64_ops lcg 0 = (Inr df, g)" and len: "length df = 365"
    and all: "\<forall>ir \<in> set df. 0 \<le> Sales (snd ir)"
    by blast
  from len have "df ! 110 \<in> set df" by simp
  with all have "0 \<le> Sales (snd (df ! 110))" by blast
  with gd len lcg_contract float64_ops_ieee show ?thesis by blast
qed

text \<open>
  C7. Two runs of the generator yield the same result: the same frame (the same length
  and the same dates, sales, categories and regions in the same order), or the same
  error. The result does not depend on the state of the global generator before the
  call, because the seed replaces it; and a second call through the cache returns what
  the first call returned.
\<close>

theorem generate_data_deterministic:
  "generate_data F R g1 = generate_data F R g2
   \<and> fst (generate_data_cached F R (snd (generate_data_cached F R st)))
       = fst (generate_data_cached F R st)"
proof -
  have a: "generate_data F R g = generate_data F R g'" for g g'
    by (simp add: generate_data_def)
  have b: "fst (generate_data_cached F R (snd (generate_data_cached F R st)))
       = fst (generate_data_cached F R st)"
  proof (cases "fst st")
    case (Some df)
    then show ?thesis by (simp add: generate_data_cached_def)
  next
    case None
    obtain r g where r: "generate_data F R (snd st) = (r, g)" by (cases "generate_data F R (snd st)")
    show ?thesis
    proof (cases r)
      case (Inl e)
      from r a [of g "snd st"] have "generate_data F R g = (r, g)" by simp
      with None r Inl show ?thesis by (simp add: generate_data_cached_def)
    next
      case (Inr df)
      with None r show ?thesis by (simp add: generate_data_cached_def)
    qed
  qed
  from a b show ?thesis by blast
qed

section \<open>Properties of the sums\<close>














end
